theory Spec2Isabelle
  imports Main
begin

section \<open>Scope\<close>

text \<open>
  The notebook \<^verbatim>\<open>labs/04_model_monitor/04_model_monitor.ipynb\<close> deploys an endpoint
  with data capture, asks the hosted monitor for a baseline, and creates an hourly
  monitoring schedule. Capture files, baseline statistics, constraint evaluation and the
  executions of the schedule are produced by the hosted service, which the notebook
  reaches through SDK calls and whose results it lists and prints. The code of the
  notebook that takes part in monitoring is the record preprocessor it uploads,
  \<^verbatim>\<open>preprocessing.py\<close>, and the header it gives the baseline dataset. This theory
  embeds both.
\<close>

section \<open>Python values and the operations the preprocessing script applies to them\<close>

text \<open>
  The module \<^verbatim>\<open>preprocessing.py\<close> has one function:
  \<^verbatim>\<open>
  def preprocess_handler(inference_record):
      input_data = json.loads(inference_record.endpoint_input.data)
      input_data = {f"feature{i}": val for i, val in enumerate(input_data)}

      output_data = json.loads(inference_record.endpoint_output.data)["predictions"][0][0]
      output_data = {"prediction0": output_data}

      return{**input_data}
  \<close>
  Every exception the function can raise is a value of \<open>pyerror\<close>, and a computation
  that may raise returns \<open>pyerror + 'a\<close>, with \<open>Inl\<close> for the exception.
  \<open>OutsideModel\<close> and \<open>OutOfFuel\<close> are not Python exceptions: they belong to the
  decoder \<open>json_loads\<close> below, which is where they are explained.
\<close>

datatype pyerror =
  JSONDecodeError | TypeError | KeyError | IndexError | OutsideModel | OutOfFuel

text \<open>
  The values \<^verbatim>\<open>json.loads\<close> can return. A \<^verbatim>\<open>dict\<close> keeps its insertion order,
  so it is an association list in that order; its keys are \<^verbatim>\<open>str\<close>. A \<^verbatim>\<open>float\<close>
  is carried by the literal it was read from: the script never computes with it.
\<close>

datatype pyvalue =
    PyNone
  | PyBool bool
  | PyInt int
  | PyFloat string
  | PyStr string
  | PyList "pyvalue list"
  | PyDict "(string \<times> pyvalue) list"

type_synonym pydict = "(string \<times> pyvalue) list"

text \<open>\<^verbatim>\<open>d[k] = v\<close>: an existing key keeps its position and takes the new value, a new
  key goes to the end.\<close>

fun dict_set :: "pydict \<Rightarrow> string \<Rightarrow> pyvalue \<Rightarrow> pydict" where
  "dict_set [] k v = [(k, v)]"
| "dict_set ((k', v') # d) k v =
     (if k' = k then (k', v) # d else (k', v') # dict_set d k v)"

text \<open>\<^verbatim>\<open>v[k]\<close> with a \<^verbatim>\<open>str\<close> subscript: only a \<^verbatim>\<open>dict\<close> accepts it.\<close>

fun getitem_str :: "pyvalue \<Rightarrow> string \<Rightarrow> pyerror + pyvalue" where
  "getitem_str (PyDict d) k =
     (case map_of d k of None \<Rightarrow> Inl KeyError | Some v \<Rightarrow> Inr v)"
| "getitem_str _ k = Inl TypeError"

text \<open>\<^verbatim>\<open>xs[i]\<close> on a sequence of length \<open>n\<close>: the places \<open>0\<close> to \<open>n - 1\<close> count from
  the front, \<open>-1\<close> down to \<open>-n\<close> from the back, and every other index raises.\<close>

definition seq_index :: "'a list \<Rightarrow> int \<Rightarrow> pyerror + 'a" where
  "seq_index xs i =
     (if 0 \<le> i \<and> i < int (length xs) then Inr (xs ! nat i)
      else if i < 0 \<and> - int (length xs) \<le> i then Inr (xs ! nat (int (length xs) + i))
      else Inl IndexError)"

text \<open>\<^verbatim>\<open>v[i]\<close> with an \<^verbatim>\<open>int\<close> subscript. A \<^verbatim>\<open>list\<close> gives its element, a
  \<^verbatim>\<open>str\<close> the one-character string at that place. A \<^verbatim>\<open>dict\<close> decoded from JSON has
  only \<^verbatim>\<open>str\<close> keys, so an \<^verbatim>\<open>int\<close> key is missing. \<^verbatim>\<open>None\<close>, \<^verbatim>\<open>bool\<close>,
  \<^verbatim>\<open>int\<close> and \<^verbatim>\<open>float\<close> are not subscriptable.\<close>

fun getitem_int :: "pyvalue \<Rightarrow> int \<Rightarrow> pyerror + pyvalue" where
  "getitem_int (PyList xs) i = seq_index xs i"
| "getitem_int (PyStr s) i =
     (case seq_index s i of Inl e \<Rightarrow> Inl e | Inr c \<Rightarrow> Inr (PyStr [c]))"
| "getitem_int (PyDict d) i = Inl KeyError"
| "getitem_int _ i = Inl TypeError"

text \<open>\<^verbatim>\<open>iter(v)\<close>, run to the end: the elements of a \<^verbatim>\<open>list\<close>, the characters of a
  \<^verbatim>\<open>str\<close>, the keys of a \<^verbatim>\<open>dict\<close>; anything else is not iterable.\<close>

fun py_iter :: "pyvalue \<Rightarrow> pyerror + pyvalue list" where
  "py_iter (PyList xs) = Inr xs"
| "py_iter (PyStr s) = Inr (map (\<lambda>c. PyStr [c]) s)"
| "py_iter (PyDict d) = Inr (map (\<lambda>kv. PyStr (fst kv)) d)"
| "py_iter _ = Inl TypeError"

definition enumerate_list :: "'a list \<Rightarrow> (nat \<times> 'a) list" where
  "enumerate_list xs = zip [0..<length xs] xs"

text \<open>\<^verbatim>\<open>str(i)\<close> for a non-negative \<^verbatim>\<open>int\<close>: its decimal digits.\<close>

definition digit_char :: "nat \<Rightarrow> char" where
  "digit_char d = char_of (48 + d)"

fun str_nat :: "nat \<Rightarrow> string" where
  "str_nat n = (if n < 10 then [digit_char n] else str_nat (n div 10) @ [digit_char (n mod 10)])"

declare str_nat.simps [simp del]

text \<open>The f-string \<^verbatim>\<open>f"feature{i}"\<close>.\<close>

definition feature_name :: "nat \<Rightarrow> string" where
  "feature_name i = ''feature'' @ str_nat i"

text \<open>The comprehension \<^verbatim>\<open>{f"feature{i}": val for i, val in enumerate(input_data)}\<close>
  stores one entry after the other into an empty \<^verbatim>\<open>dict\<close>.\<close>

definition feature_dict :: "pyvalue list \<Rightarrow> pydict" where
  "feature_dict items =
     fold (\<lambda>iv d. dict_set d (feature_name (fst iv)) (snd iv)) (enumerate_list items) []"

text \<open>\<^verbatim>\<open>{**d}\<close>: a new \<^verbatim>\<open>dict\<close> that receives the entries of \<open>d\<close> in order.\<close>

definition dict_unpack :: "pydict \<Rightarrow> pydict" where
  "dict_unpack d = fold (\<lambda>kv acc. dict_set acc (fst kv) (snd kv)) d []"

section \<open>The captured record handed to the script\<close>

text \<open>
  Modelled from the spec: the class of \<^verbatim>\<open>inference_record\<close> belongs to the monitoring
  container and is not in the repository. The spec's capture format gives each side of a
  record an observed content type, an encoding tag and the payload \<^verbatim>\<open>data\<close>, an opaque
  string; the script reads \<^verbatim>\<open>endpoint_input.data\<close> and \<^verbatim>\<open>endpoint_output.data\<close>.
\<close>

record endpoint_side =
  observedContentType :: string
  encoding :: string
  data :: string

record inference_record =
  endpoint_input :: endpoint_side
  endpoint_output :: endpoint_side

section \<open>The preprocessing script\<close>

text \<open>
  \<^verbatim>\<open>json.loads\<close> is the standard library's, so the handler takes the decoder as its
  first argument \<open>loads\<close>. The statements run in the source's order: the input is decoded
  and enumerated before the output is looked at, and the first exception ends the call.
\<close>

definition preprocess_handler ::
  "(string \<Rightarrow> pyerror + pyvalue) \<Rightarrow> inference_record \<Rightarrow> pyerror + pydict" where
  "preprocess_handler loads inference_record =
     (case loads (data (endpoint_input inference_record)) of
        Inl e \<Rightarrow> Inl e
      | Inr input_json \<Rightarrow>
     (case py_iter input_json of
        Inl e \<Rightarrow> Inl e
      | Inr items \<Rightarrow>
     (let input_data = feature_dict items in
     (case loads (data (endpoint_output inference_record)) of
        Inl e \<Rightarrow> Inl e
      | Inr output_json \<Rightarrow>
     (case getitem_str output_json ''predictions'' of
        Inl e \<Rightarrow> Inl e
      | Inr predictions \<Rightarrow>
     (case getitem_int predictions 0 of
        Inl e \<Rightarrow> Inl e
      | Inr row \<Rightarrow>
     (case getitem_int row 0 of
        Inl e \<Rightarrow> Inl e
      | Inr prediction \<Rightarrow>
     (let output_data = dict_set [] ''prediction0'' prediction in
      Inr (dict_unpack input_data)))))))))"


section \<open>A decoder for JSON text\<close>

text \<open>
  \<open>json_loads\<close> follows the standard library's decoder (\<^verbatim>\<open>json.loads\<close> with its
  default arguments) on the texts the theorems below evaluate it at: \<^verbatim>\<open>scan_once\<close>
  dispatches on the next character, \<^verbatim>\<open>JSONArray\<close> and \<^verbatim>\<open>JSONObject\<close> read the
  elements, \<^verbatim>\<open>scanstring\<close> reads a string body in strict mode, a number is the longest
  prefix matching \<^verbatim>\<open>(-?(?:0|[1-9][0-9]*))(\.[0-9]+)?([eE][-+]?[0-9]+)?\<close>, and the
  constants \<^verbatim>\<open>NaN\<close>, \<^verbatim>\<open>Infinity\<close> and \<^verbatim>\<open>-Infinity\<close> are accepted. White space
  is blank, tab, line feed and carriage return.

  The model's characters are 8-bit, so an escape \<^verbatim>\<open>\uXXXX\<close> above \<^verbatim>\<open>\u00ff\<close> names a
  character the model does not have: there the decoder answers \<open>OutsideModel\<close>, where
  Python's returns the string. The mutual recursion of \<open>scan_once\<close>, \<open>JSONArray\<close> and
  \<open>JSONObject\<close> runs on fuel and answers \<open>OutOfFuel\<close> when none is left;
  \<open>json_loads\<close> supplies fuel from the length of the text, which is shown below to be
  enough for every text. Nesting of any depth is decoded, where the interpreter's recursion
  limit ends a very deep one with \<^verbatim>\<open>RecursionError\<close>. The general theorems about the
  handler hold for every decoder and do not depend on this one.
\<close>

definition is_ws :: "char \<Rightarrow> bool" where
  "is_ws c \<longleftrightarrow> c = CHR '' '' \<or> c = CHR 0x09 \<or> c = CHR 0x0A \<or> c = CHR 0x0D"

definition skip_ws :: "string \<Rightarrow> string" where
  "skip_ws s = dropWhile is_ws s"

definition is_digit :: "char \<Rightarrow> bool" where
  "is_digit c \<longleftrightarrow> 48 \<le> (of_char c :: nat) \<and> (of_char c :: nat) \<le> 57"

definition digit_val :: "char \<Rightarrow> nat" where
  "digit_val c = of_char c - 48"

definition hex_val :: "char \<Rightarrow> nat option" where
  "hex_val c =
     (let n = (of_char c :: nat) in
      if 48 \<le> n \<and> n \<le> 57 then Some (n - 48)
      else if 65 \<le> n \<and> n \<le> 70 then Some (n - 55)
      else if 97 \<le> n \<and> n \<le> 102 then Some (n - 87)
      else None)"

text \<open>The four hexadecimal digits of a \<^verbatim>\<open>\uXXXX\<close> escape.\<close>

definition decode_uXXXX :: "char \<Rightarrow> char \<Rightarrow> char \<Rightarrow> char \<Rightarrow> nat option" where
  "decode_uXXXX a b c d =
     (case hex_val a of None \<Rightarrow> None | Some h3 \<Rightarrow>
     (case hex_val b of None \<Rightarrow> None | Some h2 \<Rightarrow>
     (case hex_val c of None \<Rightarrow> None | Some h1 \<Rightarrow>
     (case hex_val d of None \<Rightarrow> None | Some h0 \<Rightarrow>
        Some (((h3 * 16 + h2) * 16 + h1) * 16 + h0)))))"

text \<open>The table \<^verbatim>\<open>BACKSLASH\<close> of one-letter escapes.\<close>

definition backslash :: "char \<Rightarrow> char option" where
  "backslash esc =
     (if esc = CHR 0x22 then Some (CHR 0x22)
      else if esc = CHR 0x5C then Some (CHR 0x5C)
      else if esc = CHR ''/'' then Some (CHR ''/'')
      else if esc = CHR ''b'' then Some (CHR 0x08)
      else if esc = CHR ''f'' then Some (CHR 0x0C)
      else if esc = CHR ''n'' then Some (CHR 0x0A)
      else if esc = CHR ''r'' then Some (CHR 0x0D)
      else if esc = CHR ''t'' then Some (CHR 0x09)
      else None)"

text \<open>\<^verbatim>\<open>scanstring\<close> starts after the opening quote and returns the decoded string and
  the text after the closing quote.\<close>

fun scanstring :: "string \<Rightarrow> pyerror + (string \<times> string)" where
  "scanstring [] = Inl JSONDecodeError"
| "scanstring (c # cs) =
     (if c = CHR 0x22 then Inr ([], cs)
      else if c = CHR 0x5C then
        (case cs of
           [] \<Rightarrow> Inl JSONDecodeError
         | esc # cs' \<Rightarrow>
             if esc = CHR ''u'' then
               (case cs' of
                  x3 # x2 # x1 # x0 # rest \<Rightarrow>
                    (case decode_uXXXX x3 x2 x1 x0 of
                       None \<Rightarrow> Inl JSONDecodeError
                     | Some uni \<Rightarrow>
                         if uni < 256 then
                           (case scanstring rest of
                              Inl e \<Rightarrow> Inl e
                            | Inr (chunks, end) \<Rightarrow> Inr (char_of uni # chunks, end))
                         else Inl OutsideModel)
                | _ \<Rightarrow> Inl JSONDecodeError)
             else
               (case backslash esc of
                  None \<Rightarrow> Inl JSONDecodeError
                | Some ch \<Rightarrow>
                    (case scanstring cs' of
                       Inl e \<Rightarrow> Inl e
                     | Inr (chunks, end) \<Rightarrow> Inr (ch # chunks, end))))
      else if (of_char c :: nat) < 32 then Inl JSONDecodeError
      else
        (case scanstring cs of
           Inl e \<Rightarrow> Inl e
         | Inr (chunks, end) \<Rightarrow> Inr (c # chunks, end)))"

definition strip_prefix :: "string \<Rightarrow> string \<Rightarrow> string option" where
  "strip_prefix p s = (if take (length p) s = p then Some (drop (length p) s) else None)"

fun int_of_digits :: "nat \<Rightarrow> string \<Rightarrow> nat" where
  "int_of_digits acc [] = acc"
| "int_of_digits acc (c # cs) = int_of_digits (acc * 10 + digit_val c) cs"

text \<open>The three groups of the number pattern, each returning what it matched and the rest.\<close>

definition match_integer :: "string \<Rightarrow> (string \<times> string) option" where
  "match_integer s =
     (let sign = (case s of [] \<Rightarrow> [] | c # t \<Rightarrow> if c = CHR ''-'' then [c] else []);
          s1 = drop (length sign) s
      in case s1 of
           [] \<Rightarrow> None
         | c # t \<Rightarrow>
             if c = CHR ''0'' then Some (sign @ [c], t)
             else if is_digit c then Some (sign @ c # takeWhile is_digit t, dropWhile is_digit t)
             else None)"

definition match_frac :: "string \<Rightarrow> string \<times> string" where
  "match_frac s =
     (case s of
        c # d # t \<Rightarrow>
          if c = CHR ''.'' \<and> is_digit d
          then (c # d # takeWhile is_digit t, dropWhile is_digit t) else ([], s)
      | _ \<Rightarrow> ([], s))"

definition match_exp :: "string \<Rightarrow> string \<times> string" where
  "match_exp s =
     (case s of
        [] \<Rightarrow> ([], s)
      | e # t \<Rightarrow>
          if e = CHR ''e'' \<or> e = CHR ''E'' then
            (let sign = (case t of [] \<Rightarrow> []
                         | c # u \<Rightarrow> if c = CHR ''-'' \<or> c = CHR ''+'' then [c] else []);
                 t1 = drop (length sign) t
             in case t1 of
                  [] \<Rightarrow> ([], s)
                | d # u \<Rightarrow>
                    if is_digit d
                    then (e # sign @ d # takeWhile is_digit u, dropWhile is_digit u)
                    else ([], s))
          else ([], s))"

text \<open>\<^verbatim>\<open>int(integer)\<close> on a matched integer part.\<close>

definition py_int :: "string \<Rightarrow> int" where
  "py_int s =
     (case s of
        [] \<Rightarrow> 0
      | c # t \<Rightarrow> if c = CHR ''-'' then - int (int_of_digits 0 t) else int (int_of_digits 0 s))"

definition match_number :: "string \<Rightarrow> (pyvalue \<times> string) option" where
  "match_number s =
     (case match_integer s of
        None \<Rightarrow> None
      | Some (integer, s1) \<Rightarrow>
          (let (frac, s2) = match_frac s1; (exp, s3) = match_exp s2
           in if frac \<noteq> [] \<or> exp \<noteq> [] then Some (PyFloat (integer @ frac @ exp), s3)
              else Some (PyInt (py_int integer), s3)))"

text \<open>The branches of \<^verbatim>\<open>scan_once\<close> that read no nested value, in the source's order.\<close>

definition scan_literal :: "string \<Rightarrow> pyerror + (pyvalue \<times> string)" where
  "scan_literal s =
     (case strip_prefix ''null'' s of Some r \<Rightarrow> Inr (PyNone, r) | None \<Rightarrow>
     (case strip_prefix ''true'' s of Some r \<Rightarrow> Inr (PyBool True, r) | None \<Rightarrow>
     (case strip_prefix ''false'' s of Some r \<Rightarrow> Inr (PyBool False, r) | None \<Rightarrow>
     (case match_number s of Some vr \<Rightarrow> Inr vr | None \<Rightarrow>
     (case strip_prefix ''NaN'' s of Some r \<Rightarrow> Inr (PyFloat ''NaN'', r) | None \<Rightarrow>
     (case strip_prefix ''Infinity'' s of Some r \<Rightarrow> Inr (PyFloat ''Infinity'', r) | None \<Rightarrow>
     (case strip_prefix ''-Infinity'' s of Some r \<Rightarrow> Inr (PyFloat ''-Infinity'', r) | None \<Rightarrow>
      Inl JSONDecodeError)))))))"

text \<open>\<^verbatim>\<open>dict(pairs)\<close>: a repeated key keeps its first position and its last value.\<close>

definition py_dict :: "(string \<times> pyvalue) list \<Rightarrow> pydict" where
  "py_dict pairs = fold (\<lambda>kv d. dict_set d (fst kv) (snd kv)) pairs []"

text \<open>\<open>JSONArray\<close> starts at the first element of a non-empty array, \<open>JSONObject\<close> after
  the opening quote of a key.\<close>

fun scan_once :: "nat \<Rightarrow> string \<Rightarrow> pyerror + (pyvalue \<times> string)"
  and JSONArray :: "nat \<Rightarrow> string \<Rightarrow> pyerror + (pyvalue list \<times> string)"
  and JSONObject :: "nat \<Rightarrow> string \<Rightarrow> pyerror + ((string \<times> pyvalue) list \<times> string)" where
  "scan_once 0 s = Inl OutOfFuel"
| "scan_once (Suc fuel) [] = Inl JSONDecodeError"
| "scan_once (Suc fuel) (nextchar # rest) =
     (if nextchar = CHR 0x22 then
        (case scanstring rest of
           Inl e \<Rightarrow> Inl e
         | Inr (str, end) \<Rightarrow> Inr (PyStr str, end))
      else if nextchar = CHR ''{'' then
        (case skip_ws rest of
           [] \<Rightarrow> Inl JSONDecodeError
         | c # r \<Rightarrow>
             if c = CHR ''}'' then Inr (PyDict [], r)
             else if c = CHR 0x22 then
               (case JSONObject fuel r of
                  Inl e \<Rightarrow> Inl e
                | Inr (pairs, end) \<Rightarrow> Inr (PyDict (py_dict pairs), end))
             else Inl JSONDecodeError)
      else if nextchar = CHR ''['' then
        (case skip_ws rest of
           [] \<Rightarrow> Inl JSONDecodeError
         | c # r \<Rightarrow>
             if c = CHR '']'' then Inr (PyList [], r)
             else
               (case JSONArray fuel (c # r) of
                  Inl e \<Rightarrow> Inl e
                | Inr (values, end) \<Rightarrow> Inr (PyList values, end)))
      else scan_literal (nextchar # rest))"
| "JSONArray 0 s = Inl OutOfFuel"
| "JSONArray (Suc fuel) s =
     (case scan_once fuel s of
        Inl e \<Rightarrow> Inl e
      | Inr (v, s1) \<Rightarrow>
          (case skip_ws s1 of
             [] \<Rightarrow> Inl JSONDecodeError
           | c # r \<Rightarrow>
               if c = CHR '']'' then Inr ([v], r)
               else if c = CHR '','' then
                 (case JSONArray fuel (skip_ws r) of
                    Inl e \<Rightarrow> Inl e
                  | Inr (values, end) \<Rightarrow> Inr (v # values, end))
               else Inl JSONDecodeError))"
| "JSONObject 0 s = Inl OutOfFuel"
| "JSONObject (Suc fuel) s =
     (case scanstring s of
        Inl e \<Rightarrow> Inl e
      | Inr (key, s1) \<Rightarrow>
          (case skip_ws s1 of
             [] \<Rightarrow> Inl JSONDecodeError
           | c # s2 \<Rightarrow>
               if c \<noteq> CHR '':'' then Inl JSONDecodeError
               else
                 (case scan_once fuel (skip_ws s2) of
                    Inl e \<Rightarrow> Inl e
                  | Inr (v, s3) \<Rightarrow>
                      (case skip_ws s3 of
                         [] \<Rightarrow> Inl JSONDecodeError
                       | c' # r \<Rightarrow>
                           if c' = CHR ''}'' then Inr ([(key, v)], r)
                           else if c' = CHR '','' then
                             (case skip_ws r of
                                [] \<Rightarrow> Inl JSONDecodeError
                              | q # r' \<Rightarrow>
                                  if q = CHR 0x22 then
                                    (case JSONObject fuel r' of
                                       Inl e \<Rightarrow> Inl e
                                     | Inr (pairs, end) \<Rightarrow> Inr ((key, v) # pairs, end))
                                  else Inl JSONDecodeError)
                           else Inl JSONDecodeError))))"

text \<open>\<^verbatim>\<open>json.loads(s)\<close>: white space, one value, white space, end of text.\<close>

definition json_loads :: "string \<Rightarrow> pyerror + pyvalue" where
  "json_loads s =
     (case scan_once (2 * length s + 2) (skip_ws s) of
        Inl e \<Rightarrow> Inl e
      | Inr (obj, end) \<Rightarrow> if skip_ws end = [] then Inr obj else Inl JSONDecodeError)"

section \<open>The baseline schema and the shapes the claims speak of\<close>

text \<open>The header of the baseline dataset: the columns of the data frame \<^verbatim>\<open>dt\<close> that
  the notebook writes to \<^verbatim>\<open>training-dataset-with-header.csv\<close>.\<close>

definition dt_columns :: "string list" where
  "dt_columns =
     [''CRIM'', ''ZN'', ''INDUS'', ''CHAS'', ''NOX'', ''RM'', ''AGE'', ''DIS'', ''RAD'',
      ''TAX'', ''PTRATIO'', ''B'', ''LSTAT'']"

text \<open>Feature names that match a schema in cardinality and identity.\<close>

definition names_match_schema :: "string list \<Rightarrow> pydict \<Rightarrow> bool" where
  "names_match_schema schema features \<longleftrightarrow>
     length features = length schema \<and> set (map fst features) = set schema"

text \<open>The mapping with one entry per element, named by position.\<close>

definition positional_features :: "pyvalue list \<Rightarrow> pydict" where
  "positional_features items = zip (map feature_name [0..<length items]) items"

text \<open>The shape the claim about output payloads names: a JSON object whose
  \<^verbatim>\<open>"predictions"\<close> entry is a non-empty list of non-empty lists.\<close>

fun is_nonempty_list :: "pyvalue \<Rightarrow> bool" where
  "is_nonempty_list (PyList (x # xs)) = True"
| "is_nonempty_list _ = False"

fun predictions_list_of_lists :: "pyerror + pyvalue \<Rightarrow> bool" where
  "predictions_list_of_lists (Inr (PyDict d)) =
     (case map_of d ''predictions'' of
        Some (PyList rows) \<Rightarrow> rows \<noteq> [] \<and> list_all is_nonempty_list rows
      | _ \<Rightarrow> False)"
| "predictions_list_of_lists _ = False"

text \<open>The shape the script asks for: element 0 of a non-empty list, or the first character
  of a non-empty string.\<close>

fun item0 :: "pyvalue \<Rightarrow> pyvalue option" where
  "item0 (PyList (x # xs)) = Some x"
| "item0 (PyStr (c # cs)) = Some (PyStr [c])"
| "item0 _ = None"

fun prediction_of :: "pyerror + pyvalue \<Rightarrow> pyvalue option" where
  "prediction_of (Inr (PyDict d)) =
     (case map_of d ''predictions'' of
        None \<Rightarrow> None
      | Some predictions \<Rightarrow>
          (case item0 predictions of None \<Rightarrow> None | Some row \<Rightarrow> item0 row))"
| "prediction_of _ = None"

text \<open>Captured records to evaluate the handler at. \<open>sample_record\<close> is a call as the
  notebook sends it: thirteen feature values, among them \<^verbatim>\<open>RM = 0\<close> and
  \<^verbatim>\<open>AGE = 1000\<close> of the traffic with violations, and a model response.\<close>

definition json_side :: "string \<Rightarrow> endpoint_side" where
  "json_side payload =
     \<lparr>observedContentType = ''application/json'', encoding = ''JSON'', data = payload\<rparr>"

definition captured :: "string \<Rightarrow> string \<Rightarrow> inference_record" where
  "captured request response =
     \<lparr>endpoint_input = json_side request, endpoint_output = json_side response\<rparr>"

definition sample_request :: string where
  "sample_request =
     ''[-0.4, 0.5, -1.3, -0.3, 1.2, 0.0, 1000.0, 0.7, -0.6, -0.9, 0.3, 0.4, -1.1]''"

definition sample_record :: inference_record where
  "sample_record = captured sample_request ''{\"predictions\": [[22.5]]}''"

section \<open>Decimal names are distinct\<close>

lemma str_nat_nonempty: "str_nat n \<noteq> []"
  by (subst str_nat.simps) simp

lemma digit_char_inj:
  assumes "a < 10" and "b < 10" and "digit_char a = digit_char b"
  shows "a = b"
  using assms by (simp add: digit_char_def char_of_eq_iff take_bit_eq_mod)

lemma str_nat_small: "n < 10 \<Longrightarrow> str_nat n = [digit_char n]"
  by (subst str_nat.simps) simp

lemma str_nat_large:
  "\<not> n < 10 \<Longrightarrow> str_nat n = str_nat (n div 10) @ [digit_char (n mod 10)]"
  by (subst str_nat.simps) simp

lemma str_nat_length_small: "length (str_nat n) = 1 \<longleftrightarrow> n < 10"
proof (cases "n < 10")
  case True
  then show ?thesis by (simp add: str_nat_small)
next
  case False
  have "length (str_nat (n div 10)) \<noteq> 0"
    using str_nat_nonempty [of "n div 10"] by simp
  with False show ?thesis by (simp add: str_nat_large)
qed

lemma str_nat_inj: "str_nat n = str_nat m \<Longrightarrow> n = m"
proof (induction n arbitrary: m rule: str_nat.induct)
  case (1 n)
  show ?case
  proof (cases "n < 10")
    case True
    then have "length (str_nat m) = 1"
      using "1.prems" str_nat_length_small [of n] by simp
    then have m: "m < 10" using str_nat_length_small [of m] by simp
    from True m "1.prems" have "digit_char n = digit_char m"
      by (simp add: str_nat_small)
    with True m show ?thesis by (rule digit_char_inj)
  next
    case False
    then have "length (str_nat m) \<noteq> 1"
      using "1.prems" str_nat_length_small [of n] by simp
    then have m: "\<not> m < 10" using str_nat_length_small [of m] by simp
    from False m "1.prems"
    have eq: "str_nat (n div 10) = str_nat (m div 10)"
      and dg: "digit_char (n mod 10) = digit_char (m mod 10)"
      by (simp_all add: str_nat_large)
    from "1.IH" [OF False eq] have d: "n div 10 = m div 10" .
    have "n mod 10 = m mod 10"
      by (rule digit_char_inj [OF _ _ dg]) simp_all
    with d show ?thesis by (metis div_mult_mod_eq)
  qed
qed

lemma feature_name_inj: "feature_name i = feature_name j \<Longrightarrow> i = j"
  by (simp add: feature_name_def str_nat_inj)

lemma distinct_feature_names: "distinct (map feature_name [0..<n])"
  by (simp add: distinct_map inj_on_def) (blast dest: feature_name_inj)

lemma feature_name_not_column: "feature_name i \<notin> set dt_columns"
  by (simp add: feature_name_def dt_columns_def)

section \<open>Storing distinct keys appends them\<close>

lemma dict_set_fresh: "k \<notin> fst ` set d \<Longrightarrow> dict_set d k v = d @ [(k, v)]"
  by (induction d) auto

lemma fold_dict_set_fresh:
  "distinct (map fst d @ map (\<lambda>iv. name (fst iv)) ivs) \<Longrightarrow>
   fold (\<lambda>iv acc. dict_set acc (name (fst iv)) (snd iv)) ivs d
     = d @ map (\<lambda>iv. (name (fst iv), snd iv)) ivs"
proof (induction ivs arbitrary: d)
  case Nil
  then show ?case by simp
next
  case (Cons iv ivs)
  from Cons.prems have fresh: "name (fst iv) \<notin> fst ` set d" by auto
  from Cons.prems
  have "distinct (map fst (d @ [(name (fst iv), snd iv)]) @ map (\<lambda>iv. name (fst iv)) ivs)"
    by auto
  from Cons.IH [OF this] fresh show ?case
    by (simp add: dict_set_fresh)
qed

lemma map_fst_of_pairs:
  "length xs = length ys \<Longrightarrow> map (\<lambda>p. f (fst p)) (zip xs ys) = map f xs"
  by (induction xs ys rule: list_induct2) simp_all

lemma feature_dict_positional: "feature_dict items = positional_features items"
proof -
  have names: "map (\<lambda>iv. feature_name (fst iv)) (enumerate_list items)
      = map feature_name [0..<length items]"
    by (simp add: enumerate_list_def map_fst_of_pairs)
  have "distinct (map fst ([] :: pydict) @ map (\<lambda>iv. feature_name (fst iv)) (enumerate_list items))"
    by (simp add: names distinct_feature_names)
  from fold_dict_set_fresh [OF this]
  have "feature_dict items
      = map (\<lambda>iv. (feature_name (fst iv), snd iv)) (enumerate_list items)"
    by (simp add: feature_dict_def)
  also have "\<dots> = positional_features items"
    by (simp add: enumerate_list_def positional_features_def zip_map1 case_prod_beta)
  finally show ?thesis .
qed

lemma map_fst_positional:
  "map fst (positional_features items) = map feature_name [0..<length items]"
  by (simp add: positional_features_def)

lemma length_positional: "length (positional_features items) = length items"
  by (simp add: positional_features_def)

lemma dict_unpack_distinct: "distinct (map fst d) \<Longrightarrow> dict_unpack d = d"
proof -
  assume "distinct (map fst d)"
  then have "distinct (map fst ([] :: pydict) @ map (\<lambda>kv. id (fst kv)) d)" by simp
  from fold_dict_set_fresh [OF this] show ?thesis
    by (simp add: dict_unpack_def)
qed

lemma unpack_feature_dict: "dict_unpack (feature_dict items) = positional_features items"
  by (simp add: feature_dict_positional dict_unpack_distinct map_fst_positional
      distinct_feature_names)

section \<open>Subscripting at 0\<close>

lemma seq_index_0: "seq_index xs 0 = (case xs of [] \<Rightarrow> Inl IndexError | x # _ \<Rightarrow> Inr x)"
  by (cases xs) (simp_all add: seq_index_def)

lemma getitem_int_0: "getitem_int v 0 = Inr w \<longleftrightarrow> item0 v = Some w"
  by (cases v rule: item0.cases) (auto simp: seq_index_0)

lemma getitem_predictions:
  "(\<exists>p row. getitem_str v ''predictions'' = Inr p \<and> getitem_int p 0 = Inr row
      \<and> getitem_int row 0 = Inr w) \<longleftrightarrow> prediction_of (Inr v) = Some w"
  by (cases v) (auto simp: getitem_int_0 split: option.splits)

section \<open>What the handler returns\<close>

lemma preprocess_handler_returns:
  "preprocess_handler loads r = Inr m \<longleftrightarrow>
     (\<exists>v items. loads (data (endpoint_input r)) = Inr v \<and> py_iter v = Inr items
        \<and> m = positional_features items)
     \<and> prediction_of (loads (data (endpoint_output r))) \<noteq> None"
  (is "?L \<longleftrightarrow> ?R")
proof
  assume ?L
  then show ?R
    unfolding preprocess_handler_def Let_def
    by (auto split: sum.splits simp: unpack_feature_dict
        dest!: getitem_predictions [THEN iffD1, OF exI, OF exI, OF conjI, OF _ conjI])
next
  assume ?R
  then obtain v items w where
    "loads (data (endpoint_input r)) = Inr v" "py_iter v = Inr items"
    "m = positional_features items"
    "prediction_of (loads (data (endpoint_output r))) = Some w"
    by auto
  moreover from this(4) obtain u where u: "loads (data (endpoint_output r)) = Inr u"
    by (cases "loads (data (endpoint_output r))") auto
  moreover from calculation(4) u obtain p row where
    "getitem_str u ''predictions'' = Inr p" "getitem_int p 0 = Inr row"
    "getitem_int row 0 = Inr w"
    using getitem_predictions [of u w] by auto
  ultimately show ?L
    by (simp add: preprocess_handler_def unpack_feature_dict)
qed

section \<open>The decoder's fuel is enough\<close>

declare scanstring.simps [simp del]

lemma length_skip_ws: "length (skip_ws s) \<le> length s"
  by (simp add: skip_ws_def length_dropWhile_le)

lemma skip_ws_Cons: "skip_ws s = c # r \<Longrightarrow> length r < length s"
  using length_skip_ws [of s] by simp

lemma strip_prefix_consumes: "strip_prefix p s = Some r \<Longrightarrow> p \<noteq> [] \<Longrightarrow> length r < length s"
  by (cases s) (auto simp: strip_prefix_def split: if_splits)

lemma scan_literal_not_fuel: "scan_literal s \<noteq> Inl OutOfFuel"
  by (auto simp: scan_literal_def split: option.splits)

lemma scanstring_quote: "scanstring (CHR 0x22 # cs) = Inr ([], cs)"
  by (simp add: scanstring.simps)

lemma scanstring_plain:
  "c \<noteq> CHR 0x22 \<Longrightarrow> c \<noteq> CHR 0x5C \<Longrightarrow>
   scanstring (c # cs) =
     (if (of_char c :: nat) < 32 then Inl JSONDecodeError
      else (case scanstring cs of Inl e \<Rightarrow> Inl e | Inr (chunks, end) \<Rightarrow> Inr (c # chunks, end)))"
  by (simp add: scanstring.simps)

lemma scanstring_escape:
  "esc \<noteq> CHR ''u'' \<Longrightarrow>
   scanstring (CHR 0x5C # esc # cs) =
     (case backslash esc of
        None \<Rightarrow> Inl JSONDecodeError
      | Some ch \<Rightarrow>
          (case scanstring cs of Inl e \<Rightarrow> Inl e | Inr (chunks, end) \<Rightarrow> Inr (ch # chunks, end)))"
  by (simp add: scanstring.simps)

lemma scanstring_unicode:
  "scanstring (CHR 0x5C # CHR ''u'' # x3 # x2 # x1 # x0 # rest) =
     (case decode_uXXXX x3 x2 x1 x0 of
        None \<Rightarrow> Inl JSONDecodeError
      | Some uni \<Rightarrow>
          if uni < 256 then
            (case scanstring rest of
               Inl e \<Rightarrow> Inl e
             | Inr (chunks, end) \<Rightarrow> Inr (char_of uni # chunks, end))
          else Inl OutsideModel)"
  by (simp add: scanstring.simps)

lemma scanstring_short:
  "length cs < 4 \<Longrightarrow> scanstring (CHR 0x5C # CHR ''u'' # cs) = Inl JSONDecodeError"
  by (auto simp: scanstring.simps split: list.splits)

lemma scanstring_dangling: "scanstring [CHR 0x5C] = Inl JSONDecodeError"
  by (simp add: scanstring.simps)

lemma four_elements:
  "\<not> length xs < 4 \<Longrightarrow> \<exists>x3 x2 x1 x0 rest. xs = x3 # x2 # x1 # x0 # rest"
  by (auto simp: not_less numeral_eq_Suc Suc_le_length_iff)

lemma scanstring_cases:
  obtains (empty) "s = []"
  | (quote) cs where "s = CHR 0x22 # cs"
  | (dangling) "s = [CHR 0x5C]"
  | (unicode) x3 x2 x1 x0 rest where "s = CHR 0x5C # CHR ''u'' # x3 # x2 # x1 # x0 # rest"
  | (short) cs where "s = CHR 0x5C # CHR ''u'' # cs" "length cs < 4"
  | (escape) esc cs where "s = CHR 0x5C # esc # cs" "esc \<noteq> CHR ''u''"
  | (plain) c cs where "s = c # cs" "c \<noteq> CHR 0x22" "c \<noteq> CHR 0x5C"
proof (cases s)
  case Nil
  then show ?thesis by (rule empty)
next
  case (Cons c cs)
  show ?thesis
  proof (cases "c = CHR 0x22")
    case True
    show ?thesis by (rule quote [of cs]) (simp add: Cons True)
  next
    case notq: False
    show ?thesis
    proof (cases "c = CHR 0x5C")
      case False
      show ?thesis by (rule plain [of c cs]) (simp_all add: Cons notq False)
    next
      case True
      show ?thesis
      proof (cases cs)
        case Nil
        show ?thesis by (rule dangling) (simp add: Cons True Nil)
      next
        case inner: (Cons esc cs')
        show ?thesis
        proof (cases "esc = CHR ''u''")
          case False
          show ?thesis by (rule escape [of esc cs']) (simp_all add: Cons True inner False)
        next
          case u: True
          show ?thesis
          proof (cases "length cs' < 4")
            case True
            show ?thesis
              by (rule short [of cs']) (simp_all add: Cons \<open>c = CHR 0x5C\<close> inner u True)
          next
            case False
            from four_elements [OF this] obtain x3 x2 x1 x0 rest
              where "cs' = x3 # x2 # x1 # x0 # rest" by blast
            then show ?thesis
              by (intro unicode [of x3 x2 x1 x0 rest]) (simp add: Cons \<open>c = CHR 0x5C\<close> inner u)
          qed
        qed
      qed
    qed
  qed
qed

lemma scanstring_consumes: "scanstring s = Inr (str, rest) \<Longrightarrow> length rest < length s"
proof (induction "length s" arbitrary: s str rule: less_induct)
  case less
  show ?case
  proof (cases s rule: scanstring_cases)
    case empty
    with less.prems show ?thesis by (simp add: scanstring.simps)
  next
    case (quote cs)
    with less.prems show ?thesis by (simp add: scanstring_quote)
  next
    case dangling
    with less.prems show ?thesis by (simp add: scanstring_dangling)
  next
    case (unicode x3 x2 x1 x0 r)
    with less.prems obtain chunks where "scanstring r = Inr (chunks, rest)"
      by (auto simp: scanstring_unicode split: option.splits if_splits sum.splits)
    from less.hyps [OF _ this] unicode show ?thesis by simp
  next
    case (short cs)
    with less.prems show ?thesis by (simp add: scanstring_short)
  next
    case (escape esc cs)
    with less.prems obtain chunks where "scanstring cs = Inr (chunks, rest)"
      by (auto simp: scanstring_escape split: option.splits sum.splits)
    from less.hyps [OF _ this] escape show ?thesis by simp
  next
    case (plain c cs)
    with less.prems obtain chunks where "scanstring cs = Inr (chunks, rest)"
      by (auto simp: scanstring_plain split: if_splits sum.splits)
    from less.hyps [OF _ this] plain show ?thesis by simp
  qed
qed

lemma scanstring_not_fuel: "scanstring s \<noteq> Inl OutOfFuel"
proof (induction "length s" arbitrary: s rule: less_induct)
  case less
  show ?case
  proof (cases s rule: scanstring_cases)
    case empty
    then show ?thesis by (simp add: scanstring.simps)
  next
    case (quote cs)
    then show ?thesis by (simp add: scanstring_quote)
  next
    case dangling
    then show ?thesis by (simp add: scanstring_dangling)
  next
    case (unicode x3 x2 x1 x0 r)
    have "scanstring r \<noteq> Inl OutOfFuel" by (rule less.hyps) (simp add: unicode)
    then show ?thesis
      by (auto simp: unicode scanstring_unicode split: option.splits sum.splits)
  next
    case (short cs)
    then show ?thesis by (simp add: scanstring_short)
  next
    case (escape esc cs)
    have "scanstring cs \<noteq> Inl OutOfFuel" by (rule less.hyps) (simp add: escape)
    then show ?thesis
      by (auto simp: escape scanstring_escape split: option.splits sum.splits)
  next
    case (plain c cs)
    have "scanstring cs \<noteq> Inl OutOfFuel" by (rule less.hyps) (simp add: plain)
    then show ?thesis
      by (auto simp: plain scanstring_plain split: sum.splits)
  qed
qed

lemma length_drop_digits: "length (dropWhile is_digit t) \<le> length t"
  by (rule length_dropWhile_le)

lemma match_integer_consumes:
  assumes m: "match_integer s = Some (i, r)"
  shows "length r < length s"
proof (cases s)
  case Nil
  with m show ?thesis by (simp add: match_integer_def)
next
  case (Cons c t)
  show ?thesis
  proof (cases "c = CHR ''-''")
    case False
    with m Cons have "r = t \<or> r = dropWhile is_digit t"
      by (auto simp: match_integer_def Let_def split: if_splits)
    with Cons length_drop_digits [of t] show ?thesis by auto
  next
    case True
    with m Cons obtain d u where t: "t = d # u" and "r = u \<or> r = dropWhile is_digit u"
      by (auto simp: match_integer_def Let_def split: if_splits list.splits)
    with Cons length_drop_digits [of u] show ?thesis by auto
  qed
qed

lemma match_frac_consumes: "match_frac s = (f, r) \<Longrightarrow> length r \<le> length s"
proof -
  assume m: "match_frac s = (f, r)"
  then have "r = s \<or> (\<exists>c d t. s = c # d # t \<and> r = dropWhile is_digit t)"
    by (auto simp: match_frac_def split: list.splits if_splits)
  then show ?thesis
  proof
    assume "r = s"
    then show ?thesis by simp
  next
    assume "\<exists>c d t. s = c # d # t \<and> r = dropWhile is_digit t"
    then obtain c d t where "s = c # d # t" "r = dropWhile is_digit t" by blast
    with length_drop_digits [of t] show ?thesis by simp
  qed
qed

lemma match_exp_consumes: "match_exp s = (e, r) \<Longrightarrow> length r \<le> length s"
proof -
  assume m: "match_exp s = (e, r)"
  then have "r = s \<or> (\<exists>c d u. s = c # d # u \<and> r = dropWhile is_digit u)
      \<or> (\<exists>c g d u. s = c # g # d # u \<and> r = dropWhile is_digit u)"
    by (auto simp: match_exp_def Let_def split: list.splits if_splits)
  then consider "r = s" | c d u where "s = c # d # u" "r = dropWhile is_digit u"
    | c g d u where "s = c # g # d # u" "r = dropWhile is_digit u"
    by blast
  then show ?thesis
  proof cases
    case 1
    then show ?thesis by simp
  next
    case 2
    with length_drop_digits [of u] show ?thesis by simp
  next
    case 3
    with length_drop_digits [of u] show ?thesis by simp
  qed
qed

lemma match_number_consumes: "match_number s = Some (v, r) \<Longrightarrow> length r < length s"
proof -
  assume m: "match_number s = Some (v, r)"
  then obtain i s1 where i: "match_integer s = Some (i, s1)"
    by (auto simp: match_number_def split: option.splits)
  obtain f s2 where f: "match_frac s1 = (f, s2)" by (cases "match_frac s1")
  obtain e s3 where e: "match_exp s2 = (e, s3)" by (cases "match_exp s2")
  from m i f e have "r = s3"
    by (auto simp: match_number_def split: if_splits)
  with match_integer_consumes [OF i] match_frac_consumes [OF f] match_exp_consumes [OF e]
  show ?thesis by simp
qed

lemma scan_literal_consumes: "scan_literal s = Inr (v, r) \<Longrightarrow> length r < length s"
  by (auto simp: scan_literal_def split: option.splits
      dest: strip_prefix_consumes match_number_consumes)

lemma scan_once_Suc_Inr:
  assumes "scan_once (Suc n) s = Inr (v, rest)"
  obtains (string) r0 str where "s = CHR 0x22 # r0" "scanstring r0 = Inr (str, rest)"
  | (empty_object) r0 where "s = CHR ''{'' # r0" "skip_ws r0 = CHR ''}'' # rest"
  | (object) r0 r pairs where "s = CHR ''{'' # r0" "skip_ws r0 = CHR 0x22 # r"
      "JSONObject n r = Inr (pairs, rest)"
  | (empty_array) r0 where "s = CHR ''['' # r0" "skip_ws r0 = CHR '']'' # rest"
  | (array) r0 vs where "s = CHR ''['' # r0" "JSONArray n (skip_ws r0) = Inr (vs, rest)"
  | (literal) "scan_literal s = Inr (v, rest)"
proof (cases s)
  case Nil
  with assms show ?thesis by simp
next
  case (Cons c r0)
  consider "c = CHR 0x22" | "c = CHR ''{''" | "c = CHR ''[''"
    | "c \<noteq> CHR 0x22" "c \<noteq> CHR ''{''" "c \<noteq> CHR ''[''" by blast
  then show ?thesis
  proof cases
    case 1
    with assms Cons obtain str where "scanstring r0 = Inr (str, rest)"
      by (auto split: sum.splits)
    with 1 Cons show ?thesis by (intro string) simp_all
  next
    case 2
    with assms Cons obtain c' r where sk: "skip_ws r0 = c' # r"
      by (cases "skip_ws r0") auto
    show ?thesis
    proof (cases "c' = CHR ''}''")
      case True
      with assms Cons 2 sk have "rest = r" by simp
      with 2 Cons sk True show ?thesis by (intro empty_object) simp_all
    next
      case False
      with assms Cons 2 sk have q: "c' = CHR 0x22" by (auto split: if_splits)
      with assms Cons 2 sk obtain pairs where "JSONObject n r = Inr (pairs, rest)"
        by (auto split: sum.splits)
      with 2 Cons sk q show ?thesis by (intro object) simp_all
    qed
  next
    case 3
    with assms Cons obtain c' r where sk: "skip_ws r0 = c' # r"
      by (cases "skip_ws r0") auto
    show ?thesis
    proof (cases "c' = CHR '']''")
      case True
      with assms Cons 3 sk have "rest = r" by simp
      with 3 Cons sk True show ?thesis by (intro empty_array) simp_all
    next
      case False
      with assms Cons 3 sk obtain vs where "JSONArray n (skip_ws r0) = Inr (vs, rest)"
        by (auto split: sum.splits)
      with 3 Cons show ?thesis by (intro array) simp_all
    qed
  next
    case 4
    with assms Cons have "scan_literal s = Inr (v, rest)" by simp
    then show ?thesis by (rule literal)
  qed
qed

lemma JSONArray_Suc_Inr:
  assumes "JSONArray (Suc n) s = Inr (vs, rest)"
  obtains (last) v s1 where "scan_once n s = Inr (v, s1)" "skip_ws s1 = CHR '']'' # rest"
  | (more) v s1 r vs' where "scan_once n s = Inr (v, s1)" "skip_ws s1 = CHR '','' # r"
      "JSONArray n (skip_ws r) = Inr (vs', rest)"
proof -
  from assms obtain v s1 where sc: "scan_once n s = Inr (v, s1)"
    by (cases "scan_once n s") auto
  with assms obtain c r where sk: "skip_ws s1 = c # r"
    by (cases "skip_ws s1") auto
  show ?thesis
  proof (cases "c = CHR '']''")
    case True
    with assms sc sk have "rest = r" by simp
    with sc sk True show ?thesis by (intro last) simp_all
  next
    case False
    with assms sc sk have comma: "c = CHR '',''" by (auto split: if_splits)
    with assms sc sk obtain vs' where "JSONArray n (skip_ws r) = Inr (vs', rest)"
      by (auto split: sum.splits)
    with sc sk comma show ?thesis by (intro more) simp_all
  qed
qed

lemma JSONObject_Suc_Inr:
  assumes "JSONObject (Suc n) s = Inr (pairs, rest)"
  obtains (last) key s1 s2 v s3 where "scanstring s = Inr (key, s1)"
      "skip_ws s1 = CHR '':'' # s2" "scan_once n (skip_ws s2) = Inr (v, s3)"
      "skip_ws s3 = CHR ''}'' # rest"
  | (more) key s1 s2 v s3 r r' pairs' where "scanstring s = Inr (key, s1)"
      "skip_ws s1 = CHR '':'' # s2" "scan_once n (skip_ws s2) = Inr (v, s3)"
      "skip_ws s3 = CHR '','' # r" "skip_ws r = CHR 0x22 # r'"
      "JSONObject n r' = Inr (pairs', rest)"
proof -
  from assms obtain key s1 where ss: "scanstring s = Inr (key, s1)"
    by (cases "scanstring s") auto
  with assms obtain c s2 where sk1: "skip_ws s1 = c # s2"
    by (cases "skip_ws s1") auto
  with assms ss have colon: "c = CHR '':''" by (auto split: if_splits)
  with assms ss sk1 obtain v s3 where sc: "scan_once n (skip_ws s2) = Inr (v, s3)"
    by (cases "scan_once n (skip_ws s2)") auto
  with assms ss sk1 colon obtain c' r where sk3: "skip_ws s3 = c' # r"
    by (cases "skip_ws s3") auto
  show ?thesis
  proof (cases "c' = CHR ''}''")
    case True
    with assms ss sk1 colon sc sk3 have "rest = r" by simp
    with ss sk1 colon sc sk3 True show ?thesis by (intro last) simp_all
  next
    case False
    with assms ss sk1 colon sc sk3 have comma: "c' = CHR '',''" by (auto split: if_splits)
    with assms ss sk1 colon sc sk3 obtain q r' where sk: "skip_ws r = q # r'"
      by (cases "skip_ws r") auto
    with assms ss sk1 colon sc sk3 comma have q: "q = CHR 0x22" by (auto split: if_splits)
    with assms ss sk1 colon sc sk3 comma sk obtain pairs' where
      "JSONObject n r' = Inr (pairs', rest)"
      by (auto split: sum.splits)
    with ss sk1 colon sc sk3 comma sk q show ?thesis by (intro more) simp_all
  qed
qed

lemma parser_consumes:
  "(\<forall>s v rest. scan_once n s = Inr (v, rest) \<longrightarrow> length rest < length s)
   \<and> (\<forall>s vs rest. JSONArray n s = Inr (vs, rest) \<longrightarrow> length rest < length s)
   \<and> (\<forall>s pairs rest. JSONObject n s = Inr (pairs, rest) \<longrightarrow> length rest < length s)"
proof (induction n)
  case 0
  show ?case by simp
next
  case (Suc n)
  then have once: "\<And>s v rest. scan_once n s = Inr (v, rest) \<Longrightarrow> length rest < length s"
    and arr: "\<And>s vs rest. JSONArray n s = Inr (vs, rest) \<Longrightarrow> length rest < length s"
    and obj: "\<And>s pairs rest. JSONObject n s = Inr (pairs, rest) \<Longrightarrow> length rest < length s"
    by blast+
  have "length rest < length s" if "scan_once (Suc n) s = Inr (v, rest)" for s v rest
    using that
  proof (cases rule: scan_once_Suc_Inr)
    case (string r0 str)
    with scanstring_consumes [of r0 str rest] show ?thesis by simp
  next
    case (empty_object r0)
    with skip_ws_Cons [of r0] show ?thesis by simp
  next
    case (object r0 r pairs)
    with skip_ws_Cons [of r0] obj [of r pairs rest] show ?thesis by simp
  next
    case (empty_array r0)
    with skip_ws_Cons [of r0] show ?thesis by simp
  next
    case (array r0 vs)
    with length_skip_ws [of r0] arr [of "skip_ws r0" vs rest] show ?thesis by simp
  next
    case literal
    then show ?thesis by (rule scan_literal_consumes)
  qed
  moreover
  have "length rest < length s" if "JSONArray (Suc n) s = Inr (vs, rest)" for s vs rest
    using that
  proof (cases rule: JSONArray_Suc_Inr)
    case (last v s1)
    with once [of s v s1] skip_ws_Cons [of s1] show ?thesis by simp
  next
    case (more v s1 r vs')
    with once [of s v s1] skip_ws_Cons [of s1] length_skip_ws [of r]
      arr [of "skip_ws r" vs' rest]
    show ?thesis by simp
  qed
  moreover
  have "length rest < length s" if "JSONObject (Suc n) s = Inr (pairs, rest)" for s pairs rest
    using that
  proof (cases rule: JSONObject_Suc_Inr)
    case (last key s1 s2 v s3)
    with scanstring_consumes [of s key s1] skip_ws_Cons [of s1] length_skip_ws [of s2]
      once [of "skip_ws s2" v s3] skip_ws_Cons [of s3]
    show ?thesis by simp
  next
    case (more key s1 s2 v s3 r r' pairs')
    with scanstring_consumes [of s key s1] skip_ws_Cons [of s1] length_skip_ws [of s2]
      once [of "skip_ws s2" v s3] skip_ws_Cons [of s3] skip_ws_Cons [of r]
      obj [of r' pairs' rest]
    show ?thesis by simp
  qed
  ultimately show ?case by blast
qed

lemma scan_once_Suc_fuel:
  assumes "scan_once (Suc n) s = Inl OutOfFuel"
  obtains (object) r0 r where "s = CHR ''{'' # r0" "skip_ws r0 = CHR 0x22 # r"
      "JSONObject n r = Inl OutOfFuel"
  | (array) r0 where "s = CHR ''['' # r0" "JSONArray n (skip_ws r0) = Inl OutOfFuel"
proof (cases s)
  case Nil
  with assms show ?thesis by simp
next
  case (Cons c r0)
  consider "c = CHR 0x22" | "c = CHR ''{''" | "c = CHR ''[''"
    | "c \<noteq> CHR 0x22" "c \<noteq> CHR ''{''" "c \<noteq> CHR ''[''" by blast
  then show ?thesis
  proof cases
    case 1
    with assms Cons scanstring_not_fuel [of r0] show ?thesis
      by (auto split: sum.splits)
  next
    case 2
    with assms Cons obtain c' r where sk: "skip_ws r0 = c' # r"
      by (cases "skip_ws r0") auto
    with assms Cons 2 have q: "c' = CHR 0x22" by (auto split: if_splits)
    with assms Cons 2 sk have "JSONObject n r = Inl OutOfFuel"
      by (auto split: sum.splits)
    with 2 Cons sk q show ?thesis by (intro object) simp_all
  next
    case 3
    with assms Cons obtain c' r where sk: "skip_ws r0 = c' # r"
      by (cases "skip_ws r0") auto
    with assms Cons 3 have "JSONArray n (skip_ws r0) = Inl OutOfFuel"
      by (auto split: sum.splits if_splits)
    with 3 Cons show ?thesis by (intro array) simp_all
  next
    case 4
    with assms Cons scan_literal_not_fuel [of s] show ?thesis by simp
  qed
qed

lemma JSONArray_Suc_fuel:
  assumes "JSONArray (Suc n) s = Inl OutOfFuel"
  obtains (element) "scan_once n s = Inl OutOfFuel"
  | (more) v s1 r where "scan_once n s = Inr (v, s1)" "skip_ws s1 = CHR '','' # r"
      "JSONArray n (skip_ws r) = Inl OutOfFuel"
proof (cases "scan_once n s")
  case (Inl e)
  with assms have "scan_once n s = Inl OutOfFuel" by simp
  then show ?thesis by (rule element)
next
  case (Inr p)
  obtain v s1 where p: "p = (v, s1)" by (cases p)
  with assms Inr obtain c r where sk: "skip_ws s1 = c # r"
    by (cases "skip_ws s1") auto
  with assms Inr p have comma: "c = CHR '',''" by (auto split: if_splits)
  with assms Inr p sk have "JSONArray n (skip_ws r) = Inl OutOfFuel"
    by (auto split: sum.splits)
  with Inr p sk comma show ?thesis by (intro more) simp_all
qed

lemma JSONObject_Suc_fuel:
  assumes "JSONObject (Suc n) s = Inl OutOfFuel"
  obtains (val) key s1 s2 where "scanstring s = Inr (key, s1)"
      "skip_ws s1 = CHR '':'' # s2" "scan_once n (skip_ws s2) = Inl OutOfFuel"
  | (more) key s1 s2 v s3 r r' where "scanstring s = Inr (key, s1)"
      "skip_ws s1 = CHR '':'' # s2" "scan_once n (skip_ws s2) = Inr (v, s3)"
      "skip_ws s3 = CHR '','' # r" "skip_ws r = CHR 0x22 # r'"
      "JSONObject n r' = Inl OutOfFuel"
proof -
  from assms scanstring_not_fuel [of s] obtain key s1 where ss: "scanstring s = Inr (key, s1)"
    by (cases "scanstring s") auto
  with assms obtain c s2 where sk1: "skip_ws s1 = c # s2"
    by (cases "skip_ws s1") auto
  with assms ss have colon: "c = CHR '':''" by (auto split: if_splits)
  show ?thesis
  proof (cases "scan_once n (skip_ws s2)")
    case (Inl e)
    with assms ss sk1 colon have "scan_once n (skip_ws s2) = Inl OutOfFuel" by simp
    with ss sk1 colon show ?thesis by (intro val) simp_all
  next
    case (Inr p)
    obtain v s3 where p: "p = (v, s3)" by (cases p)
    with assms ss sk1 colon Inr obtain c' r where sk3: "skip_ws s3 = c' # r"
      by (cases "skip_ws s3") auto
    with assms ss sk1 colon Inr p have comma: "c' = CHR '',''" by (auto split: if_splits)
    with assms ss sk1 colon Inr p sk3 obtain q r' where sk: "skip_ws r = q # r'"
      by (cases "skip_ws r") auto
    with assms ss sk1 colon Inr p sk3 comma have q: "q = CHR 0x22" by (auto split: if_splits)
    with assms ss sk1 colon Inr p sk3 comma sk have "JSONObject n r' = Inl OutOfFuel"
      by (auto split: sum.splits)
    with ss sk1 colon Inr p sk3 comma sk q show ?thesis by (intro more) simp_all
  qed
qed

lemma parser_fuel:
  "(\<forall>s. 2 * length s + 1 \<le> n \<longrightarrow> scan_once n s \<noteq> Inl OutOfFuel)
   \<and> (\<forall>s. 2 * length s + 2 \<le> n \<longrightarrow> JSONArray n s \<noteq> Inl OutOfFuel)
   \<and> (\<forall>s. 2 * length s + 2 \<le> n \<longrightarrow> JSONObject n s \<noteq> Inl OutOfFuel)"
proof (induction n)
  case 0
  show ?case by simp
next
  case (Suc n)
  then have once: "\<And>s. 2 * length s + 1 \<le> n \<Longrightarrow> scan_once n s \<noteq> Inl OutOfFuel"
    and arr: "\<And>s. 2 * length s + 2 \<le> n \<Longrightarrow> JSONArray n s \<noteq> Inl OutOfFuel"
    and obj: "\<And>s. 2 * length s + 2 \<le> n \<Longrightarrow> JSONObject n s \<noteq> Inl OutOfFuel"
    by blast+
  note consumes = parser_consumes [of n, THEN conjunct1, rule_format]
  have "scan_once (Suc n) s \<noteq> Inl OutOfFuel" if le: "2 * length s + 1 \<le> Suc n" for s
  proof
    assume "scan_once (Suc n) s = Inl OutOfFuel"
    then show False
    proof (cases rule: scan_once_Suc_fuel)
      case (object r0 r)
      with le skip_ws_Cons [of r0] obj [of r] show ?thesis by simp
    next
      case (array r0)
      with le length_skip_ws [of r0] arr [of "skip_ws r0"] show ?thesis by simp
    qed
  qed
  moreover
  have "JSONArray (Suc n) s \<noteq> Inl OutOfFuel" if le: "2 * length s + 2 \<le> Suc n" for s
  proof
    assume "JSONArray (Suc n) s = Inl OutOfFuel"
    then show False
    proof (cases rule: JSONArray_Suc_fuel)
      case element
      with le once [of s] show ?thesis by simp
    next
      case (more v s1 r)
      with le consumes [of s v s1] skip_ws_Cons [of s1] length_skip_ws [of r]
        arr [of "skip_ws r"]
      show ?thesis by simp
    qed
  qed
  moreover
  have "JSONObject (Suc n) s \<noteq> Inl OutOfFuel" if le: "2 * length s + 2 \<le> Suc n" for s
  proof
    assume "JSONObject (Suc n) s = Inl OutOfFuel"
    then show False
    proof (cases rule: JSONObject_Suc_fuel)
      case (val key s1 s2)
      with le scanstring_consumes [of s key s1] skip_ws_Cons [of s1] length_skip_ws [of s2]
        once [of "skip_ws s2"]
      show ?thesis by simp
    next
      case (more key s1 s2 v s3 r r')
      with le scanstring_consumes [of s key s1] skip_ws_Cons [of s1] length_skip_ws [of s2]
        consumes [of "skip_ws s2" v s3] skip_ws_Cons [of s3] skip_ws_Cons [of r]
        obj [of r']
      show ?thesis by simp
    qed
  qed
  ultimately show ?case by blast
qed

lemma json_loads_fuel: "json_loads s \<noteq> Inl OutOfFuel"
proof -
  have "2 * length (skip_ws s) + 1 \<le> 2 * length s + 2"
    using length_skip_ws [of s] by simp
  with parser_fuel [of "2 * length s + 2"]
  have "scan_once (2 * length s + 2) (skip_ws s) \<noteq> Inl OutOfFuel" by blast
  then show ?thesis
    by (auto simp: json_loads_def split: sum.splits)
qed

section \<open>Feature names against the baseline schema\<close>

text \<open>
  The handler at \<open>sample_record\<close>: thirteen entries named by position, in the order of
  the payload.
\<close>

lemma preprocess_handler_sample_record:
  "preprocess_handler json_loads sample_record =
     Inr [(''feature0'', PyFloat ''-0.4''), (''feature1'', PyFloat ''0.5''),
          (''feature2'', PyFloat ''-1.3''), (''feature3'', PyFloat ''-0.3''),
          (''feature4'', PyFloat ''1.2''), (''feature5'', PyFloat ''0.0''),
          (''feature6'', PyFloat ''1000.0''), (''feature7'', PyFloat ''0.7''),
          (''feature8'', PyFloat ''-0.6''), (''feature9'', PyFloat ''-0.9''),
          (''feature10'', PyFloat ''0.3''), (''feature11'', PyFloat ''0.4''),
          (''feature12'', PyFloat ''-1.1'')]"
  by code_simp

text \<open>
  The names the handler produces. Whenever it returns, its feature names are the
  positional names \<^verbatim>\<open>feature0\<close>, \<^verbatim>\<open>feature1\<close>, ... , one for each element of the
  decoded input payload and in the payload's order; they are pairwise distinct and none of
  them is a column of the baseline header, so a comparison of the names with the header
  by identity fails on every record the handler returns; they agree with it in number
  exactly when the payload has 13 elements. The handler itself compares nothing with the
  header. Whether a schema difference is detected and what follows from it is decided by
  the hosted monitor that calls the handler, which the notebook does not contain.
\<close>

lemma preprocess_handler_positional_names:
  assumes "preprocess_handler loads r = Inr features"
  shows "(\<exists>v items. loads (data (endpoint_input r)) = Inr v \<and> py_iter v = Inr items
            \<and> length features = length items \<and> map snd features = items
            \<and> (length features = length dt_columns \<longleftrightarrow> length items = 13))
         \<and> map fst features = map feature_name [0..<length features]
         \<and> distinct (map fst features)
         \<and> set (map fst features) \<inter> set dt_columns = {}
         \<and> \<not> names_match_schema dt_columns features"
proof -
  from assms obtain v items where
    v: "loads (data (endpoint_input r)) = Inr v" and items: "py_iter v = Inr items"
    and features: "features = positional_features items"
    by (auto simp: preprocess_handler_returns)
  have names: "map fst features = map feature_name [0..<length features]"
    by (simp add: features map_fst_positional length_positional)
  have snds: "map snd features = items"
    by (simp add: features positional_features_def)
  have disjoint: "set (map fst features) \<inter> set dt_columns = {}"
    using feature_name_not_column by (auto simp: names)
  have "set dt_columns \<noteq> {}" by (simp add: dt_columns_def)
  with disjoint have "set (map fst features) \<noteq> set dt_columns" by auto
  then have "\<not> names_match_schema dt_columns features"
    by (simp add: names_match_schema_def)
  moreover have "distinct (map fst features)"
    by (simp only: names distinct_feature_names)
  moreover have "length features = length dt_columns \<longleftrightarrow> length items = 13"
    by (simp add: features length_positional dt_columns_def eval_nat_numeral)
  ultimately show ?thesis
    using v items names snds disjoint by (auto simp: features length_positional)
qed

lemma preprocess_handler_positional_names_example:
  "preprocess_handler json_loads (captured ''[2.5, 7]'' ''{\"predictions\": [[22.5]]}'')
     = Inr [(''feature0'', PyFloat ''2.5''), (''feature1'', PyInt 7)]
   \<and> distinct (map fst [(''feature0'', PyFloat ''2.5''), (''feature1'', PyInt 7)])
   \<and> set (map fst [(''feature0'', PyFloat ''2.5''), (''feature1'', PyInt 7)])
        \<inter> set dt_columns = {}
   \<and> \<not> names_match_schema dt_columns [(''feature0'', PyFloat ''2.5''), (''feature1'', PyInt 7)]"
proof -
  have returned:
    "preprocess_handler json_loads (captured ''[2.5, 7]'' ''{\"predictions\": [[22.5]]}'')
       = Inr [(''feature0'', PyFloat ''2.5''), (''feature1'', PyInt 7)]"
    by code_simp
  from preprocess_handler_positional_names [OF returned] returned show ?thesis
    by blast
qed

section \<open>Output payloads on which the handler raises\<close>

text \<open>
  Claim C10, as stated, says that the handler raises on every record whose output
  payload is not a JSON object with a non-empty \<^verbatim>\<open>"predictions"\<close> list of non-empty
  lists. It fails where a string stands in place of a list: \<^verbatim>\<open>"a"[0][0]\<close> is
  \<^verbatim>\<open>"a"\<close>, and the handler returns the features of the input.
\<close>

theorem predictions_list_of_lists_counterexample:
  "\<not> predictions_list_of_lists (json_loads ''{\"predictions\": \"a\"}'')
   \<and> preprocess_handler json_loads (captured ''[1.5]'' ''{\"predictions\": \"a\"}'')
       = Inr [(''feature0'', PyFloat ''1.5'')]"
  by code_simp

text \<open>
  Claim C10, amended: the handler raises on every record whose output payload does not
  decode to a JSON object with a \<^verbatim>\<open>"predictions"\<close> entry \<open>p\<close> for which \<^verbatim>\<open>p[0][0]\<close>
  exists, \<open>p\<close> and \<^verbatim>\<open>p[0]\<close> each being a non-empty list or a non-empty string, of which
  only element 0 is looked at. The handler returns exactly when the input payload decodes
  to an iterable value and the output has such a prediction; what it returns is the
  positional mapping of the input's elements alone, with no entry \<^verbatim>\<open>prediction0\<close>.
\<close>

theorem preprocess_handler_needs_prediction:
  "(prediction_of (loads (data (endpoint_output r))) = None
      \<longrightarrow> isl (preprocess_handler loads r))
   \<and> (preprocess_handler loads r = Inr features \<longleftrightarrow>
        prediction_of (loads (data (endpoint_output r))) \<noteq> None
        \<and> (\<exists>v items. loads (data (endpoint_input r)) = Inr v \<and> py_iter v = Inr items
              \<and> features = positional_features items))
   \<and> (preprocess_handler loads r = Inr features
        \<longrightarrow> ''prediction0'' \<notin> set (map fst features))"
proof (intro conjI impI)
  assume none: "prediction_of (loads (data (endpoint_output r))) = None"
  show "isl (preprocess_handler loads r)"
  proof (cases "preprocess_handler loads r")
    case (Inl e)
    then show ?thesis by simp
  next
    case (Inr m)
    with none show ?thesis by (simp add: preprocess_handler_returns)
  qed
next
  show "preprocess_handler loads r = Inr features \<longleftrightarrow>
      prediction_of (loads (data (endpoint_output r))) \<noteq> None
      \<and> (\<exists>v items. loads (data (endpoint_input r)) = Inr v \<and> py_iter v = Inr items
            \<and> features = positional_features items)"
    by (auto simp: preprocess_handler_returns)
next
  assume "preprocess_handler loads r = Inr features"
  then obtain items where "features = positional_features items"
    by (auto simp: preprocess_handler_returns)
  then show "''prediction0'' \<notin> set (map fst features)"
    by (auto simp: map_fst_positional feature_name_def)
qed

theorem preprocess_handler_needs_prediction_witness:
  "prediction_of (json_loads ''{\"predictions\": []}'') = None
   \<and> isl (preprocess_handler json_loads (captured ''[1.5]'' ''{\"predictions\": []}''))
   \<and> prediction_of (json_loads ''{\"predictions\": [[22.5]]}'') = Some (PyFloat ''22.5'')
   \<and> preprocess_handler json_loads (captured ''[1.5]'' ''{\"predictions\": [[22.5]]}'')
       = Inr (positional_features [PyFloat ''1.5''])
   \<and> ''prediction0'' \<notin> set (map fst (positional_features [PyFloat ''1.5'']))"
proof -
  have empty: "prediction_of (json_loads ''{\"predictions\": []}'') = None"
    by code_simp
  then have "prediction_of (json_loads
      (data (endpoint_output (captured ''[1.5]'' ''{\"predictions\": []}'')))) = None"
    by (simp add: captured_def json_side_def)
  with preprocess_handler_needs_prediction
    [of json_loads "captured ''[1.5]'' ''{\"predictions\": []}''"]
  have raised: "isl (preprocess_handler json_loads (captured ''[1.5]'' ''{\"predictions\": []}''))"
    by blast
  have present: "prediction_of (json_loads ''{\"predictions\": [[22.5]]}'') = Some (PyFloat ''22.5'')"
    by code_simp
  have input: "json_loads ''[1.5]'' = Inr (PyList [PyFloat ''1.5''])"
    by code_simp
  have "preprocess_handler json_loads (captured ''[1.5]'' ''{\"predictions\": [[22.5]]}'')
      = Inr (positional_features [PyFloat ''1.5''])"
    using preprocess_handler_needs_prediction
      [of json_loads "captured ''[1.5]'' ''{\"predictions\": [[22.5]]}''"
        "positional_features [PyFloat ''1.5'']"]
      present input
    by (simp add: captured_def json_side_def)
  with preprocess_handler_needs_prediction
    [of json_loads "captured ''[1.5]'' ''{\"predictions\": [[22.5]]}''"
      "positional_features [PyFloat ''1.5'']"]
    empty raised present
  show ?thesis by blast
qed

end
